theory Spec2Isabelle
  imports Main "HOL-Library.Monad_Syntax"
begin

section \<open>Strings of the document pipeline\<close>

text \<open>
  The pipeline of \<^verbatim>\<open>bert-ocr.py\<close> works on Python \<^verbatim>\<open>str\<close> values: sequences of
  Unicode code points. A character is modelled by its code point and a string by the
  list of its code points; \<open>ustr\<close> reads an ASCII literal as such a string.
\<close>

type_synonym pychar = nat
type_synonym pystr = "pychar list"

definition ustr :: "string \<Rightarrow> pystr" where
  "ustr s = map of_char s"

text \<open>
  The characters that \<^verbatim>\<open>str.split()\<close> and \<^verbatim>\<open>str.strip()\<close> (called without
  argument) treat as whitespace: tab to carriage return, the four information
  separators, space, NEL, no-break space, and the Unicode space separators.
\<close>

definition is_space :: "pychar \<Rightarrow> bool" where
  "is_space c \<longleftrightarrow>
     (9 \<le> c \<and> c \<le> 13) \<or> (28 \<le> c \<and> c \<le> 32) \<or> c = 133 \<or> c = 160 \<or> c = 5760 \<or>
     (8192 \<le> c \<and> c \<le> 8202) \<or> c = 8232 \<or> c = 8233 \<or> c = 8239 \<or> c = 8287 \<or> c = 12288"

text \<open>
  \<^verbatim>\<open>text.split()\<close>: skip a run of whitespace, stop at the end of the string, otherwise
  take the characters up to the next whitespace as a word and go on behind it.
\<close>

function split :: "pystr \<Rightarrow> pystr list" where
  "split s =
     (case dropWhile is_space s of
        [] \<Rightarrow> []
      | c # cs \<Rightarrow>
          takeWhile (\<lambda>x. \<not> is_space x) (c # cs) #
          split (dropWhile (\<lambda>x. \<not> is_space x) (c # cs)))"
  by pat_completeness auto
termination
proof (relation "measure length")
  show "wf (measure length)" by simp
next
  fix s :: pystr and c cs
  assume eq: "dropWhile is_space s = c # cs"
  have "\<not> is_space c"
    using hd_dropWhile[of is_space s] eq by simp
  then have "dropWhile (\<lambda>x. \<not> is_space x) (c # cs) = dropWhile (\<lambda>x. \<not> is_space x) cs"
    by simp
  moreover have "length (dropWhile (\<lambda>x. \<not> is_space x) cs) \<le> length cs"
    by (rule length_dropWhile_le)
  moreover have "length (c # cs) \<le> length s"
    using length_dropWhile_le[of is_space s] eq by simp
  ultimately show "(dropWhile (\<lambda>x. \<not> is_space x) (c # cs), s) \<in> measure length"
    by simp
qed

declare split.simps [simp del]

text \<open>\<^verbatim>\<open>sep.join(xs)\<close>.\<close>

fun join :: "pystr \<Rightarrow> pystr list \<Rightarrow> pystr" where
  "join sep [] = []"
| "join sep [x] = x"
| "join sep (x # y # ys) = x @ sep @ join sep (y # ys)"

text \<open>
  \<^verbatim>\<open>xs[i:j]\<close> for integers \<open>i\<close> and \<open>j\<close>: a negative index counts from the end, both
  indices are clamped to the list, and the slice is empty when they cross.
\<close>

definition py_slice :: "'a list \<Rightarrow> int \<Rightarrow> int \<Rightarrow> 'a list" where
  "py_slice xs i j =
     (let n = int (length xs);
          a = (if i < 0 then max (i + n) 0 else min i n);
          b = (if j < 0 then max (j + n) 0 else min j n)
      in take (nat (b - a)) (drop (nat a) xs))"

text \<open>\<^verbatim>\<open>v.strip()\<close> and \<^verbatim>\<open>v.strip(chars)\<close>.\<close>

definition strip_ws :: "pystr \<Rightarrow> pystr" where
  "strip_ws v = rev (dropWhile is_space (rev (dropWhile is_space v)))"

definition strip_chars :: "pystr \<Rightarrow> pystr \<Rightarrow> pystr" where
  "strip_chars chars v =
     rev (dropWhile (\<lambda>c. c \<in> set chars) (rev (dropWhile (\<lambda>c. c \<in> set chars) v)))"

text \<open>
  \<^verbatim>\<open>w.replace('##', '')\<close>: the occurrences of the two-character marker are removed from
  left to right, without overlap (35 is the code point of \<^verbatim>\<open>#\<close>).
\<close>

fun replace_marker :: "pystr \<Rightarrow> pystr" where
  "replace_marker (a # b # cs) =
     (if a = 35 \<and> b = 35 then replace_marker cs else a # replace_marker (b # cs))"
| "replace_marker cs = cs"

section \<open>Chunking\<close>

text \<open>
  The loop of \<^verbatim>\<open>chunk_text\<close> over its state \<open>start\<close>, \<open>chunks\<close>. Python integers are
  unbounded, so the parameters are of type \<open>int\<close>. The loop has no guard on
  \<open>chunk_size - overlap\<close>: it is a partial function, and \<open>None\<close> stands for a run that
  never leaves the loop and so returns no chunks (the memory that the growing list
  takes in the interpreter is not modelled).
\<close>

partial_function (option) chunk_loop ::
  "pystr list \<Rightarrow> int \<Rightarrow> int \<Rightarrow> int \<Rightarrow> pystr list \<Rightarrow> pystr list option" where
  "chunk_loop words chunk_size overlap start chunks =
     (if start < int (length words) then
        (let end = start + chunk_size in
         chunk_loop words chunk_size overlap (start + (chunk_size - overlap))
           (chunks @ [join (ustr '' '') (py_slice words start end)]))
      else Some chunks)"

definition chunk_text :: "pystr \<Rightarrow> int \<Rightarrow> int \<Rightarrow> pystr list option" where
  "chunk_text text chunk_size overlap = chunk_loop (split text) chunk_size overlap 0 []"

section \<open>Recursive summarization\<close>

text \<open>
  The summarization model is a parameter: \<open>summarizer chunk\<close> is \<open>Some summary\<close>, or
  \<open>None\<close> when the call raises, which the bare \<^verbatim>\<open>except\<close> of the loop turns into
  \<^verbatim>\<open>continue\<close>.
\<close>

fun summarize_chunks :: "(pystr \<Rightarrow> pystr option) \<Rightarrow> pystr list \<Rightarrow> pystr list" where
  "summarize_chunks summarizer [] = []"
| "summarize_chunks summarizer (chunk # chunks) =
     (case summarizer chunk of
        Some summary \<Rightarrow> summary # summarize_chunks summarizer chunks
      | None \<Rightarrow> summarize_chunks summarizer chunks)"

text \<open>
  One round: the body of \<^verbatim>\<open>summarize_large_text\<close> up to \<open>combined\<close>. The call of
  \<^verbatim>\<open>chunk_text\<close> leaves \<open>overlap\<close> at its default 200.
\<close>

definition summarize_round :: "(pystr \<Rightarrow> pystr option) \<Rightarrow> pystr \<Rightarrow> int \<Rightarrow> pystr option" where
  "summarize_round summarizer text max_chunk_words =
     (case chunk_text text max_chunk_words 200 of
        None \<Rightarrow> None
      | Some chunks \<Rightarrow> Some (join (ustr '' '') (summarize_chunks summarizer chunks)))"

text \<open>
  The recursion of \<^verbatim>\<open>summarize_large_text\<close>. It has no base case of its own, so it is
  a partial function; \<open>None\<close> stands for a call that never returns a summary. The
  recursion depth and the memory of the interpreter are not modelled: a summary that
  the program returns is the value of the model, while a value of the model that needs
  more nested calls than the interpreter allows is a \<^verbatim>\<open>RecursionError\<close> of the program.
\<close>

partial_function (option) summarize_large_text ::
  "(pystr \<Rightarrow> pystr option) \<Rightarrow> pystr \<Rightarrow> int \<Rightarrow> pystr option" where
  "summarize_large_text summarizer text max_chunk_words =
     (case summarize_round summarizer text max_chunk_words of
        None \<Rightarrow> None
      | Some combined \<Rightarrow>
          if int (length (split combined)) > max_chunk_words
          then summarize_large_text summarizer combined max_chunk_words
          else Some combined)"


section \<open>Entity extraction\<close>

text \<open>
  A result of the token-classification pipeline, with the two keys that
  \<^verbatim>\<open>extract_legal_entities\<close> reads.
\<close>

record ner_result =
  entity :: pystr
  word :: pystr

text \<open>The inner loop: every result is added to the set of its entity type.\<close>

fun add_results :: "(pystr \<rightharpoonup> pystr set) \<Rightarrow> ner_result list \<Rightarrow> (pystr \<rightharpoonup> pystr set)" where
  "add_results entities [] = entities"
| "add_results entities (r # results) =
     (let ent_type = entity r;
          ent_val = replace_marker (word r);
          entities1 = (if ent_type \<notin> dom entities then entities(ent_type \<mapsto> {}) else entities)
      in add_results
           (entities1(ent_type \<mapsto> insert ent_val (case entities1 ent_type of Some vs \<Rightarrow> vs | None \<Rightarrow> {})))
           results)"

text \<open>
  The outer loop. The entity model is a parameter; its call is not guarded, so an
  exception \<open>Inl e\<close> of the model leaves the function.
\<close>

fun collect_entities ::
  "(pystr \<Rightarrow> 'e + ner_result list) \<Rightarrow> (pystr \<rightharpoonup> pystr set) \<Rightarrow> pystr list \<Rightarrow> 'e + (pystr \<rightharpoonup> pystr set)" where
  "collect_entities ner_pipeline entities [] = Inr entities"
| "collect_entities ner_pipeline entities (chunk # chunks) =
     (case ner_pipeline chunk of
        Inl e \<Rightarrow> Inl e
      | Inr results \<Rightarrow> collect_entities ner_pipeline (add_results entities results) chunks)"

text \<open>
  The clean-up loop: \<^verbatim>\<open>set([v.strip(" ,.'") for v in entities[k] if v.strip()])\<close> for
  every key (39 is the code point of the apostrophe).
\<close>

definition junk_chars :: pystr where
  "junk_chars = ustr '' ,.'' @ [39]"

definition clean_up :: "(pystr \<rightharpoonup> pystr set) \<Rightarrow> (pystr \<rightharpoonup> pystr set)" where
  "clean_up entities =
     (\<lambda>k. map_option (\<lambda>vs. strip_chars junk_chars ` {v \<in> vs. strip_ws v \<noteq> []}) (entities k))"

text \<open>
  The value that is stored for the word of a result: line 96 removes the markers and
  line 102 strips the junk characters.
\<close>

definition normalize_value :: "pystr \<Rightarrow> pystr" where
  "normalize_value w = strip_chars junk_chars (replace_marker w)"

definition extract_legal_entities ::
  "(pystr \<Rightarrow> 'e + ner_result list) \<Rightarrow> pystr \<Rightarrow> int \<Rightarrow> ('e + (pystr \<rightharpoonup> pystr set)) option" where
  "extract_legal_entities ner_pipeline text chunk_size =
     (case chunk_text text chunk_size 200 of
        None \<Rightarrow> None
      | Some chunks \<Rightarrow>
          Some (case collect_entities ner_pipeline Map.empty chunks of
                  Inl e \<Rightarrow> Inl e
                | Inr entities \<Rightarrow> Inr (clean_up entities)))"

section \<open>Whitespace normalization\<close>

text \<open>
  The normalization that chunking is compared with; it is not a function of the source.
  Every run of whitespace becomes one space, and whitespace at both ends is removed.
\<close>

function squeeze :: "pystr \<Rightarrow> pystr" where
  "squeeze [] = []"
| "squeeze (c # cs) =
     (if is_space c then 32 # squeeze (dropWhile is_space cs) else c # squeeze cs)"
  by pat_completeness auto
termination
  by (relation "measure length") (auto simp: less_Suc_eq_le length_dropWhile_le)

definition normalize_ws :: "pystr \<Rightarrow> pystr" where
  "normalize_ws text = strip_ws (squeeze text)"

section \<open>Normalization in the words of the specification\<close>

text \<open>
  The normalization of entity values as section 4.3 of the specification words it,
  with which the clean-up of the code is compared; it is not a function of the source.
  The markers are removed, then punctuation and whitespace at both ends, where
  punctuation is the ASCII punctuation.
\<close>

definition is_punct :: "pychar \<Rightarrow> bool" where
  "is_punct c \<longleftrightarrow>
     (33 \<le> c \<and> c \<le> 47) \<or> (58 \<le> c \<and> c \<le> 64) \<or> (91 \<le> c \<and> c \<le> 96) \<or> (123 \<le> c \<and> c \<le> 126)"

definition spec_normalize :: "pystr \<Rightarrow> pystr" where
  "spec_normalize v =
     rev (dropWhile (\<lambda>c. is_space c \<or> is_punct c)
       (rev (dropWhile (\<lambda>c. is_space c \<or> is_punct c) (replace_marker v))))"

section \<open>Words\<close>

text \<open>A word is a non-empty string without whitespace.\<close>

definition is_word :: "pystr \<Rightarrow> bool" where
  "is_word w \<longleftrightarrow> w \<noteq> [] \<and> (\<forall>c\<in>set w. \<not> is_space c)"

section \<open>Stub models\<close>

text \<open>
  Model functions for concrete runs: a summarizer that returns its input, one that
  raises on every call, and one whose summary is always the same 202 words.
\<close>

definition identity_summarizer :: "pystr \<Rightarrow> pystr option" where
  "identity_summarizer chunk = Some chunk"

definition failing_summarizer :: "pystr \<Rightarrow> pystr option" where
  "failing_summarizer chunk = None"


text \<open>
  Entity models for concrete runs: one that tags a full stop as an organisation in
  every chunk, and one that finds \<open>Acme Corp.\<close> in the chunk \<open>Acme Corp.\<close> and
  \<open>Acme Corp\<close> in every other chunk.
\<close>

definition punctuation_ner :: "pystr \<Rightarrow> 'e + ner_result list" where
  "punctuation_ner chunk = Inr [\<lparr>entity = ustr ''ORG'', word = ustr ''.''\<rparr>]"

definition acme_ner :: "pystr \<Rightarrow> 'e + ner_result list" where
  "acme_ner chunk =
     (if chunk = ustr ''Acme Corp.''
      then Inr [\<lparr>entity = ustr ''ORG'', word = ustr ''Acme Corp.''\<rparr>]
      else Inr [\<lparr>entity = ustr ''ORG'', word = ustr ''Acme Corp''\<rparr>])"

text \<open>
  Two more entity models: one that finds \<open>Acme Corp;\<close> in the chunk \<open>Acme Corp;\<close> and
  \<open>Acme Corp\<close> in every other chunk, and one that finds the word pieces \<open>Acme\<close> and
  \<open>##Corp\<close> in the chunk \<open>Acme Corp.\<close> and \<open>Corp.\<close> in every other chunk.
\<close>

definition semicolon_ner :: "pystr \<Rightarrow> 'e + ner_result list" where
  "semicolon_ner chunk =
     (if chunk = ustr ''Acme Corp;''
      then Inr [\<lparr>entity = ustr ''ORG'', word = ustr ''Acme Corp;''\<rparr>]
      else Inr [\<lparr>entity = ustr ''ORG'', word = ustr ''Acme Corp''\<rparr>])"

definition marker_ner :: "pystr \<Rightarrow> 'e + ner_result list" where
  "marker_ner chunk =
     (if chunk = ustr ''Acme Corp.''
      then Inr [\<lparr>entity = ustr ''ORG'', word = ustr ''Acme''\<rparr>,
                \<lparr>entity = ustr ''ORG'', word = ustr ''##Corp''\<rparr>]
      else Inr [\<lparr>entity = ustr ''ORG'', word = ustr ''Corp.''\<rparr>])"

section \<open>Words and single-space joins\<close>

lemmas eval_str = ustr_def is_space_def split.simps

lemma ustr_space: "ustr '' '' = [32]"
  by (simp add: ustr_def)

lemma is_space_32: "is_space 32"
  by (simp add: is_space_def)

lemma split_Nil: "split [] = []"
  by (simp add: split.simps)

lemma split_space_Cons: "is_space c \<Longrightarrow> split (c # s) = split s"
  by (subst (1 2) split.simps) simp

lemma split_word_Cons:
  "\<not> is_space c \<Longrightarrow>
   split (c # s) =
     (c # takeWhile (\<lambda>x. \<not> is_space x) s) # split (dropWhile (\<lambda>x. \<not> is_space x) s)"
  by (subst split.simps) simp

lemmas all_words = takeWhile_eq_all_conv[THEN iffD2] dropWhile_eq_Nil_conv[THEN iffD2]

text \<open>A whitespace character between two strings separates their words.\<close>

lemma split_append_space:
  "is_space c \<Longrightarrow> split (a @ c # b) = split a @ split b"
proof (induction a rule: length_induct)
  case (1 a)
  show ?case
  proof (cases a)
    case Nil
    with 1 show ?thesis by (simp add: split_Nil split_space_Cons)
  next
    case (Cons x a')
    show ?thesis
    proof (cases "is_space x")
      case True
      with 1 Cons show ?thesis by (simp add: split_space_Cons)
    next
      case False
      show ?thesis
      proof (cases "\<forall>y\<in>set a'. \<not> is_space y")
        case True
        with False 1(2) Cons show ?thesis
          by (simp add: split_word_Cons split_Nil split_space_Cons all_words)
      next
        case ex: False
        let ?d = "dropWhile (\<lambda>x. \<not> is_space x) a'"
        have len: "length ?d < length a"
          using length_dropWhile_le[of "\<lambda>x. \<not> is_space x" a'] Cons by simp
        have "split (?d @ c # b) = split ?d @ split b"
          using 1 len by blast
        moreover have "takeWhile (\<lambda>x. \<not> is_space x) (a' @ c # b)
            = takeWhile (\<lambda>x. \<not> is_space x) a'"
          using ex by auto
        moreover have "dropWhile (\<lambda>x. \<not> is_space x) (a' @ c # b) = ?d @ c # b"
          using ex by auto
        ultimately show ?thesis
          using False Cons by (simp add: split_word_Cons)
      qed
    qed
  qed
qed

text \<open>\<open>split\<close> returns words only, and a word is its own only word.\<close>

lemma split_is_word: "w \<in> set (split s) \<Longrightarrow> is_word w"
proof (induction s arbitrary: w rule: split.induct)
  case (1 s)
  show ?case
  proof (cases "dropWhile is_space s")
    case Nil
    with 1(2) show ?thesis by (subst (asm) split.simps) simp
  next
    case (Cons c cs)
    have nsp: "\<not> is_space c"
      using hd_dropWhile[of is_space s] Cons by simp
    from 1(2) Cons have "w = takeWhile (\<lambda>x. \<not> is_space x) (c # cs)
        \<or> w \<in> set (split (dropWhile (\<lambda>x. \<not> is_space x) (c # cs)))"
      by (subst (asm) split.simps) simp
    then show ?thesis
    proof
      assume "w = takeWhile (\<lambda>x. \<not> is_space x) (c # cs)"
      then show ?thesis using nsp
        by (auto simp: is_word_def dest: set_takeWhileD)
    next
      assume "w \<in> set (split (dropWhile (\<lambda>x. \<not> is_space x) (c # cs)))"
      then show ?thesis using 1(1)[OF Cons] by simp
    qed
  qed
qed

lemma split_word: "is_word w \<Longrightarrow> split w = [w]"
proof (cases w)
  case Nil
  assume "is_word w"
  with Nil show ?thesis by (simp add: is_word_def)
next
  case (Cons c cs)
  assume "is_word w"
  with Cons have "\<not> is_space c" and all: "\<forall>y\<in>set cs. \<not> is_space y"
    by (simp_all add: is_word_def)
  then show ?thesis
    using Cons by (simp add: split_word_Cons split_Nil all_words)
qed

lemma split_join: "split (join (ustr '' '') xs) = concat (map split xs)"
proof (induction xs)
  case Nil
  show ?case by (simp add: split_Nil)
next
  case (Cons x xs)
  show ?case
  proof (cases xs)
    case Nil
    then show ?thesis by simp
  next
    case (Cons y ys)
    then have "join (ustr '' '') (x # xs) = x @ 32 # join (ustr '' '') xs"
      by (simp add: ustr_space)
    then show ?thesis
      using Cons.IH by (simp add: split_append_space is_space_32)
  qed
qed

lemma split_join_words:
  "\<forall>w\<in>set ws. is_word w \<Longrightarrow> split (join (ustr '' '') ws) = ws"
  by (induction ws) (simp_all add: split_join split_word split_Nil)

lemma split_join_split: "split (join (ustr '' '') (split s)) = split s"
  by (rule split_join_words) (simp add: split_is_word)

section \<open>The chunking loop in closed form\<close>

lemma py_slice_nonneg:
  "0 \<le> i \<Longrightarrow> i \<le> j \<Longrightarrow> py_slice xs i j = take (nat (j - i)) (drop (nat i) xs)"
  by (auto simp: py_slice_def Let_def min_def nat_diff_distrib)

lemma chunk_count_step:
  fixes d s :: int
  assumes "0 < s" "0 < d"
  shows "nat ((d + s - 1) div s) = Suc (nat ((d - s + s - 1) div s))"
proof -
  have "(d + s - 1) div s = (d - 1) div s + 1"
    using assms by (metis add.commute add_diff_eq div_add_self1 less_irrefl)
  moreover have "0 \<le> (d - 1) div s"
    using assms by (simp add: pos_imp_zdiv_nonneg_iff)
  ultimately show ?thesis by simp
qed

text \<open>
  With a positive stride the loop ends, from any \<open>start\<close>: it appends one chunk for each
  further start offset below the number of words.
\<close>

lemma chunk_loop_stride_pos:
  assumes "overlap < chunk_size"
  shows "chunk_loop ws chunk_size overlap start acc =
     Some (acc @ map (\<lambda>k. join (ustr '' '')
                        (py_slice ws (start + int k * (chunk_size - overlap))
                                     (start + int k * (chunk_size - overlap) + chunk_size)))
                 [0..<nat ((int (length ws) - start + (chunk_size - overlap) - 1)
                           div (chunk_size - overlap))])"
proof (induction "nat (int (length ws) - start)" arbitrary: start acc rule: less_induct)
  case less
  let ?s = "chunk_size - overlap"
  have s: "0 < ?s" using assms by simp
  show ?case
  proof (cases "start < int (length ws)")
    case False
    then have "(int (length ws) - start + ?s - 1) div ?s \<le> (?s - 1) div ?s"
      using s by (intro zdiv_mono1) simp_all
    moreover have "(?s - 1) div ?s = 0"
      using s by (simp add: div_pos_pos_trivial)
    ultimately have "(int (length ws) - start + ?s - 1) div ?s \<le> 0"
      by simp
    with False show ?thesis
      by (subst chunk_loop.simps) simp
  next
    case True
    have "nat (int (length ws) - (start + ?s)) < nat (int (length ws) - start)"
      using True s by simp
    note IH = less[OF this]
    have cnt: "nat ((int (length ws) - start + ?s - 1) div ?s)
        = Suc (nat ((int (length ws) - (start + ?s) + ?s - 1) div ?s))"
      using chunk_count_step[of ?s "int (length ws) - start"] s True
      by (simp add: algebra_simps)
    show ?thesis
      apply (subst chunk_loop.simps)
      apply (simp only: True if_True Let_def IH cnt)
      apply (simp add: upt_rec[of 0] map_Suc_upt[symmetric] del: upt_Suc)
      apply (simp add: algebra_simps)
      done
  qed
qed

lemma chunk_text_valid:
  assumes "0 \<le> chunk_size" "overlap < chunk_size"
  shows "chunk_text text chunk_size overlap =
     Some (map (\<lambda>k. join (ustr '' '')
                  (take (nat chunk_size) (drop (k * nat (chunk_size - overlap)) (split text))))
            [0..<(length (split text) + nat (chunk_size - overlap) - 1)
                 div nat (chunk_size - overlap)])"
proof -
  let ?s = "chunk_size - overlap"
  let ?n = "length (split text)"
  have s: "0 < ?s" using assms by simp
  have "int ((?n + nat ?s - 1) div nat ?s) = (int ?n + ?s - 1) div ?s"
    using s by (simp add: zdiv_int of_nat_diff)
  then have cnt: "nat ((int ?n - 0 + ?s - 1) div ?s) = (?n + nat ?s - 1) div nat ?s"
    by simp
  have sl: "py_slice (split text) (0 + int k * ?s) (0 + int k * ?s + chunk_size)
      = take (nat chunk_size) (drop (k * nat ?s) (split text))" for k
    using assms s by (simp add: py_slice_nonneg nat_mult_distrib)
  show ?thesis
    unfolding chunk_text_def chunk_loop_stride_pos[OF assms(2)] cnt sl by simp
qed

text \<open>
  With a stride of zero or less the loop never ends once it is entered: a run that
  returned would contradict the loop condition, by fixpoint induction.
\<close>

lemma chunk_loop_returns_stride_pos:
  assumes "chunk_loop ws chunk_size overlap start acc = Some y"
  shows "\<not> (chunk_size \<le> overlap \<and> start < int (length ws))"
proof (rule chunk_loop.raw_induct
    [where P = "\<lambda>ws cs ov st acc y. \<not> (cs \<le> ov \<and> st < int (length ws))", OF _ assms])
  fix f ws cs ov st acc y
  assume IH: "\<And>cs ov st acc b y. f cs ov st acc b = Some y \<Longrightarrow>
      \<not> (ov \<le> st \<and> acc < int (length cs))"
    and body: "(if st < int (length ws)
         then let end = st + cs
              in f ws cs ov (st + (cs - ov)) (acc @ [join (ustr '' '') (py_slice ws st end)])
         else Some acc) = Some y"
  show "\<not> (cs \<le> ov \<and> st < int (length ws))"
  proof
    assume a: "cs \<le> ov \<and> st < int (length ws)"
    with body have "f ws cs ov (st + (cs - ov))
        (acc @ [join (ustr '' '') (py_slice ws st (st + cs))]) = Some y"
      by (simp add: Let_def)
    from IH[OF this] a show False by simp
  qed
qed

lemma chunk_loop_stride_nonpos:
  "chunk_size \<le> overlap \<Longrightarrow> start < int (length ws) \<Longrightarrow>
   chunk_loop ws chunk_size overlap start acc = None"
  using chunk_loop_returns_stride_pos[of ws chunk_size overlap start acc]
  by (cases "chunk_loop ws chunk_size overlap start acc") auto

lemma chunk_text_no_words:
  "split text = [] \<Longrightarrow> chunk_text text chunk_size overlap = Some []"
  by (simp add: chunk_text_def chunk_loop.simps)

section \<open>Configurations without a positive stride\<close>

text \<open>
  C1, as the specification states it: with \<open>overlap \<ge> window_size\<close> chunking fails
  with an invalid-configuration error, never loops and returns no chunk sequence.
  The code has no such check. On a text without words it returns the empty chunk
  sequence, and on the text \<open>a\<close> it never leaves the loop.
\<close>

theorem chunk_text_invalid_configuration_counterexample:
  "(1::int) \<le> 1 \<and> chunk_text (ustr '''') 1 1 = Some [] \<and> chunk_text (ustr ''a'') 1 1 = None"
proof -
  have "split (ustr '''') = []"
    by (simp add: eval_str)
  then have empty: "chunk_text (ustr '''') 1 1 = Some []"
    by (rule chunk_text_no_words)
  have "(0::int) < int (length (split (ustr ''a'')))"
    by (simp add: eval_str)
  then have "chunk_loop (split (ustr ''a'')) 1 1 0 [] = None"
    by (intro chunk_loop_stride_nonpos) simp_all
  with empty show ?thesis
    by (simp add: chunk_text_def)
qed

text \<open>
  C1, amended: with \<open>overlap \<ge> window_size\<close> chunking returns the empty chunk sequence
  when the text has no words, and never returns otherwise.
\<close>

theorem chunk_text_invalid_configuration:
  assumes "window_size \<le> overlap"
  shows "chunk_text text window_size overlap = (if split text = [] then Some [] else None)"
proof (cases "split text = []")
  case True
  then show ?thesis by (simp add: chunk_text_no_words)
next
  case False
  with assms show ?thesis
    by (simp add: chunk_text_def chunk_loop_stride_nonpos)
qed

theorem chunk_text_invalid_configuration_witness:
  "(200::int) \<le> 200 \<and> chunk_text (ustr ''Acme Corp.'') 200 200 = None
     \<and> chunk_text (ustr '' '') 200 200 = Some []"
  using chunk_text_invalid_configuration[of 200 200 "ustr ''Acme Corp.''"]
    chunk_text_invalid_configuration[of 200 200 "ustr '' ''"]
  by (simp add: eval_str)

section \<open>Windows of a valid configuration\<close>

lemma window_words:
  "split (join (ustr '' '') (take w (drop d (split text)))) = take w (drop d (split text))"
  by (rule split_join_words) (auto dest!: in_set_takeD in_set_dropD intro: split_is_word)

lemma chunk_count_pos:
  fixes n s :: nat
  assumes "0 < s" "0 < n"
  shows "(n + s - 1) div s = Suc ((n - 1) div s)"
proof (cases n)
  case 0
  with assms show ?thesis by simp
next
  case (Suc m)
  with assms show ?thesis by (simp add: div_add_self2)
qed

text \<open>
  C3: with \<open>0 \<le> overlap < window_size\<close> and \<open>stride = window_size - overlap\<close>, chunking
  returns; chunk \<open>k\<close> is the single-space join of the words at the indices from
  \<open>k * stride\<close> up to \<open>k * stride + window_size\<close> (as far as the text goes), and these are
  its words. Every word \<open>i\<close> of the text is word \<open>i mod stride\<close> of chunk \<open>i div stride\<close>,
  and chunk \<open>k + 1\<close> starts at or before the end of chunk \<open>k\<close>, so no word falls
  between two chunks.
\<close>

theorem chunk_text_windows:
  assumes "0 \<le> overlap" "overlap < window_size"
  shows "\<exists>chunks. chunk_text text window_size overlap = Some chunks
     \<and> length chunks
         = (length (split text) + nat (window_size - overlap) - 1) div nat (window_size - overlap)
     \<and> (\<forall>k<length chunks.
          chunks ! k = join (ustr '' '')
             (take (nat window_size) (drop (k * nat (window_size - overlap)) (split text)))
        \<and> split (chunks ! k)
            = take (nat window_size) (drop (k * nat (window_size - overlap)) (split text)))
     \<and> (\<forall>i<length (split text).
          i div nat (window_size - overlap) < length chunks
        \<and> i mod nat (window_size - overlap)
            < length (split (chunks ! (i div nat (window_size - overlap))))
        \<and> split (chunks ! (i div nat (window_size - overlap))) ! (i mod nat (window_size - overlap))
            = split text ! i)
     \<and> (\<forall>k. Suc k < length chunks \<longrightarrow>
          Suc k * nat (window_size - overlap)
            \<le> k * nat (window_size - overlap) + length (split (chunks ! k)))"
proof -
  define s where "s = nat (window_size - overlap)"
  define W where "W = nat window_size"
  define ws where "ws = split text"
  define N where "N = (length ws + s - 1) div s"
  define chunks where "chunks = map (\<lambda>k. join (ustr '' '') (take W (drop (k * s) ws))) [0..<N]"
  have s: "0 < s" and sW: "s \<le> W"
    using assms by (simp_all add: s_def W_def)
  have ret: "chunk_text text window_size overlap = Some chunks"
    using chunk_text_valid[of window_size overlap "text"] assms
    by (simp add: chunks_def N_def s_def W_def ws_def)
  have len: "length chunks = N"
    by (simp add: chunks_def)
  have nth: "chunks ! k = join (ustr '' '') (take W (drop (k * s) ws))" if "k < N" for k
    using that by (simp add: chunks_def)
  have words: "split (chunks ! k) = take W (drop (k * s) ws)" if "k < N" for k
    using that by (simp add: nth ws_def window_words)
  have N_pos: "N = Suc ((length ws - 1) div s)" if "0 < length ws"
    unfolding N_def using s that by (rule chunk_count_pos)
  have cover: "i div s < N \<and> i mod s < length (split (chunks ! (i div s)))
      \<and> split (chunks ! (i div s)) ! (i mod s) = ws ! i" if i: "i < length ws" for i
  proof -
    have "i div s \<le> (length ws - 1) div s"
      using i by (intro div_le_mono) simp
    moreover have "0 < length ws"
      using i by auto
    ultimately have k: "i div s < N"
      using N_pos by simp
    have eq: "i div s * s + i mod s = i"
      by simp
    have "i mod s < s" using s by simp
    then have m: "i mod s < W" using sW by simp
    have m2: "i mod s < length ws - i div s * s"
      using eq i by linarith
    show ?thesis
      using k m m2 by (simp add: words add.commute[of "i div s * s"])
  qed
  have nogap: "Suc k * s \<le> k * s + length (split (chunks ! k))" if k: "Suc k < N" for k
  proof -
    have pos: "0 < length ws"
      using k s by (cases "length ws") (simp_all add: N_def)
    have "Suc k \<le> (length ws - 1) div s"
      using k N_pos[OF pos] by simp
    then have "Suc k * s \<le> (length ws - 1) div s * s"
      by (rule mult_le_mono1)
    also have "\<dots> \<le> length ws - 1"
      by simp
    finally have "Suc k * s < length ws"
      using pos by linarith
    moreover have "length (split (chunks ! k)) = min (length ws - k * s) W"
      using k by (simp add: words)
    ultimately show ?thesis
      using sW by (simp add: min_def) linarith
  qed
  have A: "\<forall>k<length chunks. chunks ! k = join (ustr '' '') (take W (drop (k * s) ws))
      \<and> split (chunks ! k) = take W (drop (k * s) ws)"
    unfolding len using nth words by blast
  have B: "\<forall>i<length ws. i div s < length chunks
      \<and> i mod s < length (split (chunks ! (i div s)))
      \<and> split (chunks ! (i div s)) ! (i mod s) = ws ! i"
    unfolding len using cover by blast
  have C: "\<forall>k. Suc k < length chunks \<longrightarrow> Suc k * s \<le> k * s + length (split (chunks ! k))"
    unfolding len using nogap by blast
  from ret len A B C show ?thesis
    unfolding s_def W_def ws_def N_def by blast
qed

theorem chunk_text_windows_witness:
  "(0::int) \<le> 1 \<and> (1::int) < 3
   \<and> chunk_text (ustr ''a b c d e'') 3 1 = Some [ustr ''a b c'', ustr ''c d e'', ustr ''e'']"
proof -
  let ?T = "ustr ''a b c d e''"
  have h1: "(0::int) \<le> 1" and h2: "(1::int) < 3"
    by simp_all
  have w: "split ?T = [ustr ''a'', ustr ''b'', ustr ''c'', ustr ''d'', ustr ''e'']"
    by (simp add: eval_str)
  obtain chunks where ret: "chunk_text ?T 3 1 = Some chunks"
    and len: "length chunks = (length (split ?T) + nat (3 - 1) - 1) div nat (3 - 1)"
    and nth: "\<forall>k<length chunks.
        chunks ! k = join (ustr '' '') (take (nat 3) (drop (k * nat (3 - 1)) (split ?T)))
      \<and> split (chunks ! k) = take (nat 3) (drop (k * nat (3 - 1)) (split ?T))"
    using chunk_text_windows[OF h1 h2, of ?T] by blast
  have l3: "length chunks = 3"
    using len by (simp add: w)
  have "chunks ! 0 = ustr ''a b c''" "chunks ! 1 = ustr ''c d e''" "chunks ! 2 = ustr ''e''"
    using nth[unfolded w] l3 by (simp_all add: ustr_def)
  then have "chunks = [ustr ''a b c'', ustr ''c d e'', ustr ''e'']"
    using l3 by (simp add: list_eq_iff_nth_eq less_Suc_eq numeral_3_eq_3 numeral_2_eq_2)
  with ret show ?thesis by simp
qed

section \<open>The number of chunks\<close>

text \<open>
  C7, as the specification states it: a valid configuration gives no chunk for a text
  without words and exactly one chunk for a text of fewer than \<open>window_size\<close> words.
  With window 3 and overlap 2 the two-word text \<open>a b\<close> gives two chunks: the loop
  goes on as long as the next start offset lies inside the text.
\<close>

theorem chunk_text_count_counterexample:
  "(0::int) < 3 \<and> (0::int) \<le> 2 \<and> (2::int) < 3 \<and> int (length (split (ustr ''a b''))) < 3
   \<and> chunk_text (ustr ''a b'') 3 2 = Some [ustr ''a b'', ustr ''b'']"
  by (simp add: chunk_text_def chunk_loop.simps py_slice_def eval_str)

text \<open>
  C7, amended: a valid configuration gives no chunk exactly when the text has no
  words, and exactly one chunk exactly when the text has at least one word and at most
  \<open>window_size - overlap\<close> words.
\<close>

theorem chunk_text_count:
  assumes "0 \<le> overlap" "overlap < window_size"
  shows "\<exists>chunks. chunk_text text window_size overlap = Some chunks
     \<and> (length chunks = 0 \<longleftrightarrow> split text = [])
     \<and> (length chunks = 1 \<longleftrightarrow>
          split text \<noteq> [] \<and> int (length (split text)) \<le> window_size - overlap)"
proof -
  define s where "s = nat (window_size - overlap)"
  define n where "n = length (split text)"
  define N where "N = (n + s - 1) div s"
  have s: "0 < s"
    using assms by (simp add: s_def)
  obtain chunks where ret: "chunk_text text window_size overlap = Some chunks"
    and len: "length chunks = N"
    using chunk_text_valid[of window_size overlap "text"] assms
    by (simp add: N_def n_def s_def)
  have zero: "N = 0 \<longleftrightarrow> n = 0"
  proof (cases "n = 0")
    case True
    then show ?thesis using s by (simp add: N_def)
  next
    case False
    then show ?thesis using chunk_count_pos[OF s, of n] by (simp add: N_def)
  qed
  have one: "N = 1 \<longleftrightarrow> 0 < n \<and> n \<le> s"
  proof (cases "n = 0")
    case True
    then show ?thesis using s by (simp add: N_def)
  next
    case False
    then have "N = Suc ((n - 1) div s)"
      using chunk_count_pos[OF s, of n] by (simp add: N_def)
    moreover have "(n - 1) div s = 0 \<longleftrightarrow> n - 1 < s"
      using s by (simp add: div_eq_0_iff)
    ultimately show ?thesis using False by auto
  qed
  have "int n \<le> window_size - overlap \<longleftrightarrow> n \<le> s"
    using assms by (simp add: s_def le_nat_iff)
  with zero one ret len show ?thesis
    unfolding n_def by auto
qed

theorem chunk_text_count_witness:
  "(0::int) \<le> 1 \<and> (1::int) < 3 \<and> split (ustr ''a b'') \<noteq> []
   \<and> int (length (split (ustr ''a b''))) \<le> 3 - 1
   \<and> map_option length (chunk_text (ustr ''a b'') 3 1) = Some 1"
proof -
  have h1: "(0::int) \<le> 1" and h2: "(1::int) < 3"
    by simp_all
  have w: "split (ustr ''a b'') = [ustr ''a'', ustr ''b'']"
    by (simp add: eval_str)
  from chunk_text_count[OF h1 h2, of "ustr ''a b''"] show ?thesis
    by (auto simp: w)
qed

section \<open>Chunking and whitespace\<close>

text \<open>
  The words of a text do not change when whitespace is stripped from its ends or when
  its whitespace runs are squeezed.
\<close>

lemma split_dropWhile_space: "split (dropWhile is_space s) = split s"
  by (subst (1 2) split.simps) (simp add: dropWhile_idem)

lemma split_all_space: "\<forall>c\<in>set t. is_space c \<Longrightarrow> split t = []"
  by (induction t) (simp_all add: split_Nil split_space_Cons)

lemma split_append_spaces: "\<forall>c\<in>set t. is_space c \<Longrightarrow> split (a @ t) = split a"
  by (cases t) (simp_all add: split_append_space split_all_space)

lemma split_strip_ws: "split (strip_ws s) = split s"
proof -
  define r where "r = rev (dropWhile is_space s)"
  have "rev (dropWhile is_space r) @ rev (takeWhile is_space r) = rev r"
    by (simp add: rev_append[symmetric] del: rev_append)
  moreover have "\<forall>c\<in>set (rev (takeWhile is_space r)). is_space c"
    by (auto dest: set_takeWhileD)
  then have "split (rev (dropWhile is_space r) @ rev (takeWhile is_space r))
      = split (rev (dropWhile is_space r))"
    by (rule split_append_spaces)
  ultimately have "split (rev (dropWhile is_space r)) = split (rev r)"
    by simp
  then show ?thesis
    by (simp add: strip_ws_def r_def split_dropWhile_space)
qed

lemma split_Cons_nonspace:
  assumes "\<not> is_space c"
  shows "split (c # s) =
    (if s = [] \<or> is_space (hd s) then [c] # split s else (c # hd (split s)) # tl (split s))"
proof (cases s)
  case Nil
  with assms show ?thesis by (simp add: split_word_Cons split_Nil)
next
  case (Cons x xs)
  show ?thesis
  proof (cases "is_space x")
    case True
    with assms Cons show ?thesis by (simp add: split_word_Cons)
  next
    case False
    with assms Cons show ?thesis by (simp add: split_word_Cons)
  qed
qed

lemma squeeze_Nil_iff: "squeeze s = [] \<longleftrightarrow> s = []"
  by (cases s) simp_all

lemma hd_squeeze_space: "s \<noteq> [] \<Longrightarrow> is_space (hd (squeeze s)) \<longleftrightarrow> is_space (hd s)"
  by (cases s) (simp_all add: is_space_32)

lemma split_squeeze: "split (squeeze s) = split s"
proof (induction s rule: squeeze.induct)
  case 1
  show ?case by simp
next
  case (2 c cs)
  show ?case
  proof (cases "is_space c")
    case True
    with 2 show ?thesis
      by (simp add: split_space_Cons is_space_32 split_dropWhile_space)
  next
    case False
    show ?thesis
    proof (cases "cs = []")
      case True
      with False show ?thesis by simp
    next
      case ne: False
      then have "is_space (hd (squeeze cs)) \<longleftrightarrow> is_space (hd cs)"
        by (rule hd_squeeze_space)
      with 2 False ne show ?thesis
        by (simp add: split_Cons_nonspace squeeze_Nil_iff)
    qed
  qed
qed

lemma split_normalize_ws: "split (normalize_ws text) = split text"
  by (simp add: normalize_ws_def split_strip_ws split_squeeze)

text \<open>
  The normalized text is the single-space join of the words of the text: squeezing
  keeps the words, leaves one space between two of them, and stripping removes what is
  left at the ends.
\<close>

lemma rstrip_append:
  "rev (dropWhile is_space (rev (a @ b))) =
     (if rev (dropWhile is_space (rev b)) = [] then rev (dropWhile is_space (rev a))
      else a @ rev (dropWhile is_space (rev b)))"
  by (simp add: dropWhile_append)

lemma rstrip_Cons:
  "rev (dropWhile is_space (rev (c # y))) =
     (if rev (dropWhile is_space (rev y)) = [] then (if is_space c then [] else [c])
      else c # rev (dropWhile is_space (rev y)))"
  using rstrip_append[of "[c]" y] by simp

lemma rstrip_word:
  assumes "\<forall>c\<in>set w. \<not> is_space c"
  shows "rev (dropWhile is_space (rev w)) = w"
proof -
  have "dropWhile is_space (rev w) = rev w"
    using assms by (cases "rev w") auto
  then show ?thesis by simp
qed

lemma squeeze_word_prefix:
  "\<forall>c\<in>set w. \<not> is_space c \<Longrightarrow> squeeze (w @ r) = w @ squeeze r"
  by (induction w) simp_all

lemma join_words_Nil:
  "\<forall>w\<in>set ws. is_word w \<Longrightarrow> join (ustr '' '') ws = [] \<longleftrightarrow> ws = []"
proof (cases ws)
  case Nil
  then show ?thesis by simp
next
  case (Cons x xs)
  assume "\<forall>w\<in>set ws. is_word w"
  with Cons have "x \<noteq> []"
    by (simp add: is_word_def)
  with Cons show ?thesis
    by (cases xs) simp_all
qed

lemma rstrip_squeeze:
  "s = [] \<or> \<not> is_space (hd s) \<Longrightarrow>
   rev (dropWhile is_space (rev (squeeze s))) = join (ustr '' '') (split s)"
proof (induction s rule: length_induct)
  case (1 s)
  show ?case
  proof (cases s)
    case Nil
    then show ?thesis by (simp add: split_Nil)
  next
    case (Cons c cs)
    with 1(2) have c: "\<not> is_space c" by simp
    define w where "w = c # takeWhile (\<lambda>x. \<not> is_space x) cs"
    define r where "r = dropWhile (\<lambda>x. \<not> is_space x) cs"
    have s: "s = w @ r"
      by (simp add: Cons w_def r_def)
    have w: "\<forall>x\<in>set w. \<not> is_space x"
      using c by (auto simp: w_def dest: set_takeWhileD)
    have sp: "split s = w # split r"
      using c by (simp add: Cons split_word_Cons w_def r_def)
    have sq: "squeeze s = w @ squeeze r"
      unfolding s using w by (rule squeeze_word_prefix)
    show ?thesis
    proof (cases r)
      case Nil
      then show ?thesis
        using w by (simp add: sq sp split_Nil rstrip_word)
    next
      case (Cons x r')
      have "dropWhile (\<lambda>x. \<not> is_space x) cs = x # r'"
        using Cons by (simp add: r_def)
      then have x: "is_space x"
        by (metis hd_dropWhile list.sel(1) list.distinct(1))
      define d where "d = dropWhile is_space r'"
      have "length r \<le> length cs"
        unfolding r_def by (rule length_dropWhile_le)
      moreover have "length d \<le> length r'"
        unfolding d_def by (rule length_dropWhile_le)
      ultimately have len: "length d < length s"
        using Cons \<open>s = c # cs\<close> by simp
      have lead: "d = [] \<or> \<not> is_space (hd d)"
        using hd_dropWhile[of is_space r'] by (auto simp: d_def)
      have IH: "rev (dropWhile is_space (rev (squeeze d))) = join (ustr '' '') (split d)"
        using 1(1) len lead by blast
      have spr: "split r = split d"
        using x by (simp add: Cons split_space_Cons d_def split_dropWhile_space)
      have sqr: "squeeze r = 32 # squeeze d"
        using x by (simp add: Cons d_def)
      have words: "\<forall>v\<in>set (split d). is_word v"
        by (simp add: split_is_word)
      show ?thesis
      proof (cases "split d = []")
        case True
        then have e: "rev (dropWhile is_space (rev (squeeze d))) = []"
          using IH by simp
        have e2: "rev (dropWhile is_space (rev (32 # squeeze d))) = []"
          by (simp only: rstrip_Cons e is_space_32 simp_thms if_True)
        have "rev (dropWhile is_space (rev (w @ 32 # squeeze d))) = w"
          by (simp only: rstrip_append[of w] e2 simp_thms if_True rstrip_word[OF w])
        then show ?thesis
          using True by (simp only: sq sp spr sqr join.simps)
      next
        case False
        then have ne: "rev (dropWhile is_space (rev (squeeze d))) \<noteq> []"
          using IH join_words_Nil[OF words] by simp
        have "join (ustr '' '') (w # split d) = w @ 32 # join (ustr '' '') (split d)"
          using False by (cases "split d") (simp_all add: ustr_space)
        moreover have e2: "rev (dropWhile is_space (rev (32 # squeeze d)))
            = 32 # join (ustr '' '') (split d)"
          using ne by (simp only: rstrip_Cons IH simp_thms if_False)
        then have "rev (dropWhile is_space (rev (w @ 32 # squeeze d)))
            = w @ 32 # join (ustr '' '') (split d)"
          by (simp only: rstrip_append[of w] e2 list.distinct simp_thms if_False)
        ultimately show ?thesis
          by (simp only: sq sp spr sqr)
      qed
    qed
  qed
qed

lemma dropWhile_squeeze:
  "dropWhile is_space (squeeze s) = squeeze (dropWhile is_space s)"
proof (cases s)
  case Nil
  then show ?thesis by simp
next
  case (Cons c cs)
  define d where "d = dropWhile is_space cs"
  have lead: "d = [] \<or> \<not> is_space (hd d)"
    using hd_dropWhile[of is_space cs] by (auto simp: d_def)
  then have "dropWhile is_space (squeeze d) = squeeze d"
    by (cases d) auto
  then show ?thesis
    using Cons by (simp add: d_def is_space_32)
qed

lemma normalize_ws_join_split: "normalize_ws s = join (ustr '' '') (split s)"
proof -
  define d where "d = dropWhile is_space s"
  have lead: "d = [] \<or> \<not> is_space (hd d)"
    using hd_dropWhile[of is_space s] by (auto simp: d_def)
  have "normalize_ws s = rev (dropWhile is_space (rev (squeeze d)))"
    by (simp add: normalize_ws_def strip_ws_def dropWhile_squeeze d_def)
  also have "\<dots> = join (ustr '' '') (split d)"
    using lead by (rule rstrip_squeeze)
  also have "\<dots> = join (ustr '' '') (split s)"
    by (simp add: d_def split_dropWhile_space)
  finally show ?thesis .
qed

text \<open>
  Whatever the configuration, a chunk that the loop returns is the single-space join
  of a slice of the words (fixpoint induction on the loop).
\<close>

lemma set_take_drop: "set (take n (drop m xs)) \<subseteq> set xs"
  by (meson set_take_subset set_drop_subset order_trans)

lemma set_py_slice: "set (py_slice xs i j) \<subseteq> set xs"
  unfolding py_slice_def Let_def by (rule set_take_drop)

lemma join_split_join:
  "\<forall>w\<in>set l. is_word w \<Longrightarrow> join (ustr '' '') (split (join (ustr '' '') l)) = join (ustr '' '') l"
  by (simp add: split_join_words)

lemma chunk_loop_joined:
  assumes "chunk_loop ws chunk_size overlap start acc = Some y"
  shows "(\<forall>w\<in>set ws. is_word w) \<and> (\<forall>c\<in>set acc. join (ustr '' '') (split c) = c)
    \<longrightarrow> (\<forall>c\<in>set y. join (ustr '' '') (split c) = c)"
proof (rule chunk_loop.raw_induct
    [where P = "\<lambda>ws cs ov st acc y.
        (\<forall>w\<in>set ws. is_word w) \<and> (\<forall>c\<in>set acc. join (ustr '' '') (split c) = c)
        \<longrightarrow> (\<forall>c\<in>set y. join (ustr '' '') (split c) = c)", OF _ assms])
  fix f ws cs ov st acc y
  assume IH: "\<And>ws cs ov st acc y. f ws cs ov st acc = Some y \<Longrightarrow>
      (\<forall>w\<in>set ws. is_word w) \<and> (\<forall>c\<in>set acc. join (ustr '' '') (split c) = c)
        \<longrightarrow> (\<forall>c\<in>set y. join (ustr '' '') (split c) = c)"
    and body: "(if st < int (length ws)
         then let end = st + cs
              in f ws cs ov (st + (cs - ov)) (acc @ [join (ustr '' '') (py_slice ws st end)])
         else Some acc) = Some y"
  show "(\<forall>w\<in>set ws. is_word w) \<and> (\<forall>c\<in>set acc. join (ustr '' '') (split c) = c)
        \<longrightarrow> (\<forall>c\<in>set y. join (ustr '' '') (split c) = c)"
  proof (intro impI, elim conjE)
    assume words: "\<forall>w\<in>set ws. is_word w"
      and acc: "\<forall>c\<in>set acc. join (ustr '' '') (split c) = c"
    show "\<forall>c\<in>set y. join (ustr '' '') (split c) = c"
    proof (cases "st < int (length ws)")
      case False
      with body acc show ?thesis by simp
    next
      case True
      with body have "f ws cs ov (st + (cs - ov))
          (acc @ [join (ustr '' '') (py_slice ws st (st + cs))]) = Some y"
        by (simp add: Let_def)
      note step = IH[OF this]
      have "\<forall>w\<in>set (py_slice ws st (st + cs)). is_word w"
        using words set_py_slice[of ws st "st + cs"] by blast
      then have "join (ustr '' '') (split (join (ustr '' '') (py_slice ws st (st + cs))))
          = join (ustr '' '') (py_slice ws st (st + cs))"
        by (rule join_split_join)
      with acc have "\<forall>c\<in>set (acc @ [join (ustr '' '') (py_slice ws st (st + cs))]).
          join (ustr '' '') (split c) = c"
        by simp
      with words step show ?thesis by blast
    qed
  qed
qed

text \<open>
  C10: chunking the whitespace-normalized text gives the same result as chunking the
  text, for every configuration; and every chunk of a returned chunk sequence is the
  single-space join of its own words, hence normalized itself.
\<close>

theorem chunk_text_whitespace_invariant:
  "chunk_text (normalize_ws text) window_size overlap = chunk_text text window_size overlap
   \<and> (\<forall>chunks. chunk_text text window_size overlap = Some chunks \<longrightarrow>
        (\<forall>c\<in>set chunks. join (ustr '' '') (split c) = c \<and> normalize_ws c = c))"
proof -
  have "\<forall>c\<in>set chunks. join (ustr '' '') (split c) = c"
    if "chunk_text text window_size overlap = Some chunks" for chunks
    using chunk_loop_joined[of "split text" window_size overlap 0 "[]" chunks] that
    by (simp add: chunk_text_def split_is_word)
  then have "\<forall>c\<in>set chunks. join (ustr '' '') (split c) = c \<and> normalize_ws c = c"
    if "chunk_text text window_size overlap = Some chunks" for chunks
    using that by (simp add: normalize_ws_join_split)
  moreover have "chunk_text (normalize_ws text) window_size overlap
      = chunk_text text window_size overlap"
    by (simp add: chunk_text_def split_normalize_ws)
  ultimately show ?thesis
    by blast
qed

theorem chunk_text_whitespace_invariant_witness:
  "normalize_ws [32, 9, 97, 10, 10, 98, 32] = ustr ''a b''
   \<and> chunk_text [32, 9, 97, 10, 10, 98, 32] 3 1 = Some [ustr ''a b'']
   \<and> chunk_text (ustr ''a b'') 3 1 = Some [ustr ''a b'']
   \<and> join (ustr '' '') (split (ustr ''a b'')) = ustr ''a b''
   \<and> normalize_ws (ustr ''a b'') = ustr ''a b''"
proof -
  have n: "normalize_ws [32, 9, 97, 10, 10, 98, 32] = ustr ''a b''"
    by (simp add: normalize_ws_def strip_ws_def eval_str)
  have c: "chunk_text (ustr ''a b'') 3 1 = Some [ustr ''a b'']"
    by (simp add: chunk_text_def chunk_loop.simps py_slice_def eval_str)
  note inv = chunk_text_whitespace_invariant[of "[32, 9, 97, 10, 10, 98, 32]" 3 1]
  have e: "chunk_text [32, 9, 97, 10, 10, 98, 32] 3 1 = Some [ustr ''a b'']"
    using inv[THEN conjunct1] n c by simp
  have "\<forall>c\<in>set [ustr ''a b'']. join (ustr '' '') (split c) = c \<and> normalize_ws c = c"
    using inv[THEN conjunct2] e by blast
  with n c e show ?thesis by simp
qed

section \<open>The summaries that are returned\<close>

text \<open>The loop over the chunks keeps the summaries of the calls that succeed, in order.\<close>

lemma summarize_chunks_map_filter:
  "summarize_chunks summarizer chunks = List.map_filter summarizer chunks"
  by (induction chunks) (simp_all add: map_filter_simps split: option.splits)

text \<open>
  C9: whenever the recursive summarization returns a summary, the summary has at most
  \<open>max_chunk_words\<close> words. A call returns from the last
  line of a round only, where the combined text was found short enough (fixpoint
  induction).
\<close>

theorem summarize_large_text_bounded:
  assumes "summarize_large_text summarizer text max_chunk_words = Some summary"
  shows "int (length (split summary)) \<le> max_chunk_words"
proof (rule summarize_large_text.raw_induct
    [where P = "\<lambda>f t m y. int (length (split y)) \<le> m", OF _ assms])
  fix rec f t m y
  assume IH: "\<And>f t m y. rec f t m = Some y \<Longrightarrow> int (length (split y)) \<le> m"
    and body: "(case summarize_round f t m of None \<Rightarrow> None
         | Some combined \<Rightarrow>
             if m < int (length (split combined)) then rec f combined m else Some combined)
        = Some y"
  from body obtain c where c: "summarize_round f t m = Some c"
    by (cases "summarize_round f t m") simp_all
  show "int (length (split y)) \<le> m"
  proof (cases "m < int (length (split c))")
    case True
    with body c have "rec f c m = Some y" by simp
    then show ?thesis by (rule IH)
  next
    case False
    with body c show ?thesis by simp
  qed
qed

lemma round_identity_short:
  "summarize_round identity_summarizer (ustr ''a  b'') 1000 = Some (ustr ''a b'')"
  by (simp add: summarize_round_def chunk_text_def chunk_loop.simps py_slice_def
      identity_summarizer_def eval_str)

theorem summarize_large_text_bounded_witness:
  "summarize_large_text identity_summarizer (ustr ''a  b'') 1000 = Some (ustr ''a b'')
   \<and> int (length (split (ustr ''a b''))) \<le> 1000"
proof -
  have r: "summarize_large_text identity_summarizer (ustr ''a  b'') 1000 = Some (ustr ''a b'')"
    by (subst summarize_large_text.simps) (simp add: round_identity_short, simp add: eval_str)
  from summarize_large_text_bounded[OF r] r show ?thesis by simp
qed

section \<open>Rounds of the recursive summarization\<close>

text \<open>A round whose combined text is short enough returns it.\<close>

lemma round_returns:
  "summarize_round summarizer t m = Some y \<Longrightarrow> int (length (split y)) \<le> m \<Longrightarrow>
   summarize_large_text summarizer t m = Some y"
  by (subst summarize_large_text.simps) simp













section \<open>The identity summarizer\<close>

text \<open>
  C4, as the specification states it: on a text of at most \<open>max_chunk_words\<close> words the
  identity summarizer gives the text back, in one round. The text \<open>a b\<close> has two words
  and the window is 201, but the overlap of 200 leaves a stride of one word, the word
  \<open>b\<close> is a chunk of its own, and the result is \<open>a b b\<close>.
\<close>

theorem summarize_identity_counterexample:
  "int (length (split (ustr ''a b''))) \<le> 201
   \<and> summarize_large_text identity_summarizer (ustr ''a b'') 201 = Some (ustr ''a b b'')"
proof -
  have r: "summarize_round identity_summarizer (ustr ''a b'') 201 = Some (ustr ''a b b'')"
    by (simp add: summarize_round_def chunk_text_def chunk_loop.simps py_slice_def
        identity_summarizer_def eval_str)
  have w: "int (length (split (ustr ''a b b''))) \<le> 201"
    by (simp add: eval_str)
  have "summarize_large_text identity_summarizer (ustr ''a b'') 201 = Some (ustr ''a b b'')"
    using r w by (rule round_returns)
  moreover have "int (length (split (ustr ''a b''))) \<le> 201"
    by (simp add: eval_str)
  ultimately show ?thesis by simp
qed

text \<open>A text of at most \<open>max_chunk_words - 200\<close> words is one chunk.\<close>

lemma chunk_text_single:
  assumes "split doc \<noteq> []" "int (length (split doc)) \<le> m - 200"
  shows "chunk_text doc m 200 = Some [join (ustr '' '') (split doc)]"
proof -
  define n where "n = length (split doc)"
  define s where "s = nat (m - 200)"
  have n: "0 < n" "n \<le> s"
    using assms by (simp_all add: n_def s_def)
  then have "(n + s - 1) div s = Suc ((n - 1) div s)"
    by (intro chunk_count_pos) simp_all
  moreover have "(n - 1) div s = 0"
    using n by simp
  ultimately have one: "(n + s - 1) div s = 1"
    by simp
  have "0 < int (length (split doc))"
    using assms(1) by simp
  with assms(2) have m: "0 \<le> m" "200 < m"
    by linarith+
  have "n \<le> nat m"
    using n by (simp add: s_def)
  then have all: "take (nat m) (split doc) = split doc"
    by (simp add: n_def)
  show ?thesis
    using chunk_text_valid[OF m, of doc] one all
    by (simp add: n_def s_def)
qed

text \<open>
  C4, amended: when the text has no words and \<open>max_chunk_words \<ge> 0\<close>, or has at least
  one and at most \<open>max_chunk_words - 200\<close> words, the first round with the identity
  summarizer combines to the whitespace-normalized text (the text itself when it is
  normalized already), this has no more than \<open>max_chunk_words\<close> words, so there is no
  recursive call, and it is the result.
\<close>

theorem summarize_identity:
  assumes "(split text = [] \<and> 0 \<le> max_chunk_words)
      \<or> (split text \<noteq> [] \<and> int (length (split text)) \<le> max_chunk_words - 200)"
  shows "summarize_round identity_summarizer text max_chunk_words = Some (normalize_ws text)
     \<and> \<not> max_chunk_words < int (length (split (normalize_ws text)))
     \<and> summarize_large_text identity_summarizer text max_chunk_words
           = Some (normalize_ws text)"
proof -
  have r: "summarize_round identity_summarizer text max_chunk_words
      = Some (join (ustr '' '') (split text))"
    using assms
  proof
    assume "split text = [] \<and> 0 \<le> max_chunk_words"
    then show ?thesis
      by (simp add: summarize_round_def chunk_text_no_words)
  next
    assume "split text \<noteq> [] \<and> int (length (split text)) \<le> max_chunk_words - 200"
    then show ?thesis
      by (simp add: summarize_round_def chunk_text_single identity_summarizer_def)
  qed
  have w: "int (length (split (join (ustr '' '') (split text)))) \<le> max_chunk_words"
    using assms by (auto simp: split_join_split)
  from r w have "summarize_large_text identity_summarizer text max_chunk_words
      = Some (join (ustr '' '') (split text))"
    by (rule round_returns)
  with r w show ?thesis
    by (simp add: normalize_ws_join_split)
qed

theorem summarize_identity_witness:
  "split (ustr ''a  b c'') \<noteq> [] \<and> int (length (split (ustr ''a  b c''))) \<le> 203 - 200
   \<and> summarize_large_text identity_summarizer (ustr ''a  b c'') 203 = Some (ustr ''a b c'')
   \<and> split [] = [] \<and> summarize_large_text identity_summarizer [] 0 = Some []"
proof -
  have w: "split (ustr ''a  b c'') = [ustr ''a'', ustr ''b'', ustr ''c'']"
    by (simp add: eval_str)
  have j: "join (ustr '' '') [ustr ''a'', ustr ''b'', ustr ''c''] = ustr ''a b c''"
    by (simp add: ustr_def)
  have e: "split [] = []"
    by (rule split_Nil)
  have n: "normalize_ws (ustr ''a  b c'') = ustr ''a b c''" "normalize_ws [] = []"
    by (simp_all add: normalize_ws_join_split w e j del: join.simps(2,3))
  from summarize_identity[of "ustr ''a  b c''" 203] summarize_identity[of "[]" 0]
  show ?thesis
    unfolding w e n by simp
qed

section \<open>Summarizer calls that fail\<close>

text \<open>
  C6, as the specification states it: for every text and every \<open>max_chunk_words\<close>, a
  summarizer that fails on every chunk gives the empty summary. With
  \<open>max_chunk_words = 100\<close>, below the overlap of 200, the call on the text \<open>a\<close> never
  returns: the chunking loop does not end.
\<close>

theorem summarize_all_fail_counterexample:
  "summarize_large_text failing_summarizer (ustr ''a'') 100 = None"
proof -
  have "(0::int) < int (length (split (ustr ''a'')))"
    by (simp add: eval_str)
  then have "chunk_loop (split (ustr ''a'')) 100 200 0 [] = None"
    by (intro chunk_loop_stride_nonpos) simp_all
  then have "summarize_round failing_summarizer (ustr ''a'') 100 = None"
    by (simp add: summarize_round_def chunk_text_def)
  then show ?thesis
    by (subst summarize_large_text.simps) simp
qed

text \<open>
  C6, amended: when \<open>max_chunk_words > 200\<close>, or the text has no words and
  \<open>max_chunk_words \<ge> 0\<close>, every round is completed whatever calls fail: its combined
  text is the single-space join of the summaries of the chunks on which the call
  succeeded, in chunk order. When the call fails on every chunk, the result is the
  empty string.
\<close>

theorem summarize_all_fail:
  assumes "200 < max_chunk_words \<or> (split text = [] \<and> 0 \<le> max_chunk_words)"
  shows "\<exists>chunks. chunk_text text max_chunk_words 200 = Some chunks
     \<and> summarize_round summarizer text max_chunk_words
         = Some (join (ustr '' '') (List.map_filter summarizer chunks))
     \<and> ((\<forall>c\<in>set chunks. summarizer c = None) \<longrightarrow>
          summarize_large_text summarizer text max_chunk_words = Some [])"
proof -
  from assms obtain chunks where ch: "chunk_text text max_chunk_words 200 = Some chunks"
    using chunk_text_valid[of max_chunk_words 200 "text"] chunk_text_no_words[of "text" max_chunk_words 200]
    by auto
  have r: "summarize_round summarizer text max_chunk_words
      = Some (join (ustr '' '') (List.map_filter summarizer chunks))"
    by (simp add: summarize_round_def ch summarize_chunks_map_filter)
  have m: "0 \<le> max_chunk_words"
    using assms by auto
  have "summarize_large_text summarizer text max_chunk_words = Some []"
    if "\<forall>c\<in>set chunks. summarizer c = None"
  proof -
    from that have "List.map_filter summarizer chunks = []"
      by (induction chunks) (simp_all add: map_filter_simps)
    with r have "summarize_round summarizer text max_chunk_words = Some []"
      by simp
    moreover have "int (length (split [])) \<le> max_chunk_words"
      using m by (simp add: split_Nil)
    ultimately show ?thesis
      by (rule round_returns)
  qed
  with ch r show ?thesis by blast
qed

theorem summarize_all_fail_witness:
  "(200::int) < 201
   \<and> chunk_text (ustr ''a b'') 201 200 = Some [ustr ''a b'', ustr ''b'']
   \<and> summarize_large_text failing_summarizer (ustr ''a b'') 201 = Some []"
proof -
  have h: "(200::int) < 201 \<or> (split (ustr ''a b'') = [] \<and> (0::int) \<le> 201)"
    by simp
  have ch: "chunk_text (ustr ''a b'') 201 200 = Some [ustr ''a b'', ustr ''b'']"
    by (simp add: chunk_text_def chunk_loop.simps py_slice_def eval_str)
  from summarize_all_fail[OF h, of failing_summarizer] ch show ?thesis
    by (simp add: failing_summarizer_def)
qed

section \<open>The entity index\<close>

text \<open>
  The accumulation loops in closed form: under an entity type the index holds the
  marker-free words of all results of that type.
\<close>

lemma add_results_Cons:
  "add_results E (r # rs) =
     add_results (E(entity r \<mapsto> insert (replace_marker (word r))
                                    (case E (entity r) of None \<Rightarrow> {} | Some vs \<Rightarrow> vs))) rs"
  by (cases "E (entity r)") (auto simp: Let_def dom_def)

lemma add_results_lookup:
  "add_results E rs k =
     (if {r \<in> set rs. entity r = k} = {} then E k
      else Some ((\<lambda>r. replace_marker (word r)) ` {r \<in> set rs. entity r = k}
                 \<union> (case E k of None \<Rightarrow> {} | Some vs \<Rightarrow> vs)))"
proof (induction rs arbitrary: E)
  case Nil
  show ?case by simp
next
  case (Cons r rs)
  show ?case
    unfolding add_results_Cons Cons.IH
    by (cases "E k") (auto split: option.splits)
qed

lemma add_results_append:
  "add_results E (xs @ ys) = add_results (add_results E xs) ys"
proof (induction xs arbitrary: E)
  case Nil
  show ?case by simp
next
  case (Cons x xs)
  show ?case
    unfolding append_Cons add_results_Cons Cons.IH ..
qed

lemma collect_entities_all:
  "\<forall>c\<in>set chunks. ner_pipeline c = Inr (spans c) \<Longrightarrow>
   collect_entities ner_pipeline E chunks = Inr (add_results E (concat (map spans chunks)))"
  by (induction chunks arbitrary: E) (simp_all add: add_results_append)

text \<open>
  When the entity model raises on no chunk, the index is returned, and the set under a
  type is the set of the stored forms of the collected words of that type that are not
  whitespace only once their markers are removed.
\<close>

lemma extract_returns:
  assumes "chunk_text doc chunk_size 200 = Some chunks"
    and "\<forall>c\<in>set chunks. ner_pipeline c = Inr (spans c)"
  shows "extract_legal_entities ner_pipeline doc chunk_size
    = Some (Inr (clean_up (add_results Map.empty (concat (map spans chunks)))))"
proof -
  have "collect_entities ner_pipeline Map.empty chunks
      = Inr (add_results Map.empty (concat (map spans chunks)))"
    using assms(2) by (rule collect_entities_all)
  then show ?thesis
    by (simp add: extract_legal_entities_def assms(1))
qed

lemma kept_values:
  "strip_chars junk_chars ` {v \<in> (\<lambda>r. replace_marker (word r)) ` R. strip_ws v \<noteq> []}
   = normalize_value ` {w \<in> word ` R. strip_ws (replace_marker w) \<noteq> []}"
  by (auto simp: normalize_value_def)

lemma clean_up_lookup:
  "clean_up (add_results Map.empty rs) k =
     (if {r \<in> set rs. entity r = k} = {} then None
      else Some (normalize_value `
             {w \<in> word ` {r \<in> set rs. entity r = k}. strip_ws (replace_marker w) \<noteq> []}))"
  unfolding clean_up_def add_results_lookup kept_values[symmetric] by simp

text \<open>
  C8, amended: values that are equal after the normalization of the code, which removes
  the markers and then strips spaces, commas, full stops and apostrophes at both ends,
  are stored once. When the entity model raises on no chunk, the index is returned;
  its set for a type is the set of the normalized forms of the words collected for that
  type over all chunks, as far as these are not whitespace only; so two collected words
  \<open>a\<close> and \<open>b\<close> of a type with the same normalized form give the one-element set of
  that form, and \<open>Acme Corp.\<close> and \<open>Acme Corp\<close> under \<open>ORG\<close> give the set with the one
  element \<open>Acme Corp\<close>.
\<close>

theorem extract_deduplicates:
  assumes "chunk_text text chunk_size 200 = Some chunks"
    and "\<forall>c\<in>set chunks. ner_pipeline c = Inr (spans c)"
  shows "\<exists>idx. extract_legal_entities ner_pipeline text chunk_size = Some (Inr idx)
    \<and> (\<forall>k. idx k =
          (if {r \<in> (\<Union>c\<in>set chunks. set (spans c)). entity r = k} = {} then None
           else Some (normalize_value `
                  {w \<in> word ` {r \<in> (\<Union>c\<in>set chunks. set (spans c)). entity r = k}.
                   strip_ws (replace_marker w) \<noteq> []})))
    \<and> (\<forall>k a b.
          word ` {r \<in> (\<Union>c\<in>set chunks. set (spans c)). entity r = k} = {a, b}
          \<and> strip_ws (replace_marker a) \<noteq> [] \<and> strip_ws (replace_marker b) \<noteq> []
          \<and> normalize_value a = normalize_value b
          \<longrightarrow> idx k = Some {normalize_value a})
    \<and> (word ` {r \<in> (\<Union>c\<in>set chunks. set (spans c)). entity r = ustr ''ORG''}
           = {ustr ''Acme Corp.'', ustr ''Acme Corp''}
         \<longrightarrow> idx (ustr ''ORG'') = Some {ustr ''Acme Corp''})"
proof -
  define idx where "idx = clean_up (add_results Map.empty (concat (map spans chunks)))"
  define R where "R k = {r \<in> (\<Union>c\<in>set chunks. set (spans c)). entity r = k}" for k
  have ret: "extract_legal_entities ner_pipeline text chunk_size = Some (Inr idx)"
    unfolding idx_def using assms by (rule extract_returns)
  have look: "idx k = (if R k = {} then None
      else Some (normalize_value ` {w \<in> word ` R k. strip_ws (replace_marker w) \<noteq> []}))" for k
    unfolding idx_def R_def clean_up_lookup by simp
  have two: "idx k = Some {normalize_value a}"
    if w: "word ` R k = {a, b}"
      and keep: "strip_ws (replace_marker a) \<noteq> []" "strip_ws (replace_marker b) \<noteq> []"
      and eq: "normalize_value a = normalize_value b" for k a b
  proof -
    have ne: "R k \<noteq> {}"
    proof
      assume "R k = {}"
      then have "word ` R k = {}" by (simp only: image_empty)
      with w show False by simp
    qed
    have "{w \<in> word ` R k. strip_ws (replace_marker w) \<noteq> []} = {a, b}"
      unfolding w using keep by auto
    then have "normalize_value ` {w \<in> word ` R k. strip_ws (replace_marker w) \<noteq> []}
        = {normalize_value a}"
      using eq by simp
    with ne show ?thesis
      by (simp only: look if_False)
  qed
  have acme: "idx (ustr ''ORG'') = Some {ustr ''Acme Corp''}"
    if w: "word ` R (ustr ''ORG'') = {ustr ''Acme Corp.'', ustr ''Acme Corp''}"
  proof -
    have m: "replace_marker (ustr ''Acme Corp.'') = ustr ''Acme Corp.''"
      "replace_marker (ustr ''Acme Corp'') = ustr ''Acme Corp''"
      by (simp_all add: ustr_def)
    have k: "strip_ws (ustr ''Acme Corp.'') \<noteq> []" "strip_ws (ustr ''Acme Corp'') \<noteq> []"
      by (simp_all add: strip_ws_def ustr_def is_space_def)
    have n: "normalize_value (ustr ''Acme Corp.'') = ustr ''Acme Corp''"
      "normalize_value (ustr ''Acme Corp'') = ustr ''Acme Corp''"
      by (simp_all add: normalize_value_def strip_chars_def junk_chars_def ustr_def)
    have "idx (ustr ''ORG'') = Some {normalize_value (ustr ''Acme Corp.'')}"
      using w by (rule two) (simp_all only: m k n simp_thms)
    then show ?thesis
      by (simp only: n)
  qed
  show ?thesis
  proof (intro exI[of _ idx] conjI allI impI)
    show "extract_legal_entities ner_pipeline text chunk_size = Some (Inr idx)"
      by (rule ret)
  next
    fix k
    show "idx k =
        (if {r \<in> (\<Union>c\<in>set chunks. set (spans c)). entity r = k} = {} then None
         else Some (normalize_value `
                {w \<in> word ` {r \<in> (\<Union>c\<in>set chunks. set (spans c)). entity r = k}.
                 strip_ws (replace_marker w) \<noteq> []}))"
      by (rule look[unfolded R_def])
  next
    fix k a b
    assume "word ` {r \<in> (\<Union>c\<in>set chunks. set (spans c)). entity r = k} = {a, b}
        \<and> strip_ws (replace_marker a) \<noteq> [] \<and> strip_ws (replace_marker b) \<noteq> []
        \<and> normalize_value a = normalize_value b"
    then have "word ` R k = {a, b}" "strip_ws (replace_marker a) \<noteq> []"
      "strip_ws (replace_marker b) \<noteq> []" "normalize_value a = normalize_value b"
      unfolding R_def by blast+
    then show "idx k = Some {normalize_value a}"
      by (rule two)
  next
    assume "word ` {r \<in> (\<Union>c\<in>set chunks. set (spans c)). entity r = ustr ''ORG''}
        = {ustr ''Acme Corp.'', ustr ''Acme Corp''}"
    then have "word ` R (ustr ''ORG'') = {ustr ''Acme Corp.'', ustr ''Acme Corp''}"
      unfolding R_def .
    then show "idx (ustr ''ORG'') = Some {ustr ''Acme Corp''}"
      by (rule acme)
  qed
qed

theorem extract_deduplicates_witness:
  "chunk_text (ustr ''Acme Corp.'') 201 200 = Some [ustr ''Acme Corp.'', ustr ''Corp.'']
   \<and> (\<exists>idx. extract_legal_entities (acme_ner :: pystr \<Rightarrow> unit + ner_result list)
                (ustr ''Acme Corp.'') 201 = Some (Inr idx)
          \<and> idx (ustr ''ORG'') = Some {ustr ''Acme Corp''})
   \<and> (\<exists>idx. extract_legal_entities (marker_ner :: pystr \<Rightarrow> unit + ner_result list)
                (ustr ''Acme Corp.'') 201 = Some (Inr idx)
          \<and> idx (ustr ''ORG'') = Some {ustr ''Acme'', ustr ''Corp''}
          \<and> idx (ustr ''PER'') = None)"
proof -
  let ?A = "\<lambda>c. if c = ustr ''Acme Corp.''
      then [\<lparr>entity = ustr ''ORG'', word = ustr ''Acme Corp.''\<rparr>]
      else [\<lparr>entity = ustr ''ORG'', word = ustr ''Acme Corp''\<rparr>]"
  let ?M = "\<lambda>c. if c = ustr ''Acme Corp.''
      then [\<lparr>entity = ustr ''ORG'', word = ustr ''Acme''\<rparr>,
            \<lparr>entity = ustr ''ORG'', word = ustr ''##Corp''\<rparr>]
      else [\<lparr>entity = ustr ''ORG'', word = ustr ''Corp.''\<rparr>]"
  have ch: "chunk_text (ustr ''Acme Corp.'') 201 200 = Some [ustr ''Acme Corp.'', ustr ''Corp.'']"
    by (simp add: chunk_text_def chunk_loop.simps py_slice_def eval_str)
  have ne: "ustr ''Corp.'' \<noteq> ustr ''Acme Corp.''" "ustr ''PER'' \<noteq> ustr ''ORG''"
    by (simp_all add: ustr_def)
  have nerA: "\<forall>c\<in>set [ustr ''Acme Corp.'', ustr ''Corp.''].
      (acme_ner :: pystr \<Rightarrow> unit + ner_result list) c = Inr (?A c)"
    by (simp add: acme_ner_def)
  have nerM: "\<forall>c\<in>set [ustr ''Acme Corp.'', ustr ''Corp.''].
      (marker_ner :: pystr \<Rightarrow> unit + ner_result list) c = Inr (?M c)"
    by (simp add: marker_ner_def)
  have rawA: "word ` {r \<in> (\<Union>c\<in>set [ustr ''Acme Corp.'', ustr ''Corp.'']. set (?A c)).
        entity r = ustr ''ORG''}
      = {ustr ''Acme Corp.'', ustr ''Acme Corp''}"
  proof -
    have "{r \<in> (\<Union>c\<in>set [ustr ''Acme Corp.'', ustr ''Corp.'']. set (?A c)).
          entity r = ustr ''ORG''}
        = {\<lparr>entity = ustr ''ORG'', word = ustr ''Acme Corp.''\<rparr>,
           \<lparr>entity = ustr ''ORG'', word = ustr ''Acme Corp''\<rparr>}"
      using ne by auto
    then show ?thesis
      by (simp only: image_insert image_empty ner_result.simps)
  qed
  from extract_deduplicates[OF ch nerA] obtain idxA
    where A: "extract_legal_entities (acme_ner :: pystr \<Rightarrow> unit + ner_result list)
          (ustr ''Acme Corp.'') 201 = Some (Inr idxA)"
      and instA: "word ` {r \<in> (\<Union>c\<in>set [ustr ''Acme Corp.'', ustr ''Corp.'']. set (?A c)).
            entity r = ustr ''ORG''} = {ustr ''Acme Corp.'', ustr ''Acme Corp''}
          \<longrightarrow> idxA (ustr ''ORG'') = Some {ustr ''Acme Corp''}"
    by (elim exE conjE) (rule that)
  from instA rawA have a: "idxA (ustr ''ORG'') = Some {ustr ''Acme Corp''}"
    by (rule mp)
  from extract_deduplicates[OF ch nerM] obtain idxM
    where M: "extract_legal_entities (marker_ner :: pystr \<Rightarrow> unit + ner_result list)
          (ustr ''Acme Corp.'') 201 = Some (Inr idxM)"
      and look: "\<forall>k. idxM k =
          (if {r \<in> (\<Union>c\<in>set [ustr ''Acme Corp.'', ustr ''Corp.'']. set (?M c)). entity r = k} = {}
           then None
           else Some (normalize_value `
                  {w \<in> word ` {r \<in> (\<Union>c\<in>set [ustr ''Acme Corp.'', ustr ''Corp.'']. set (?M c)).
                                entity r = k}.
                   strip_ws (replace_marker w) \<noteq> []}))"
    by (elim exE conjE) (rule that)
  have RO: "{r \<in> (\<Union>c\<in>set [ustr ''Acme Corp.'', ustr ''Corp.'']. set (?M c)).
        entity r = ustr ''ORG''}
      = {\<lparr>entity = ustr ''ORG'', word = ustr ''Acme''\<rparr>,
         \<lparr>entity = ustr ''ORG'', word = ustr ''##Corp''\<rparr>,
         \<lparr>entity = ustr ''ORG'', word = ustr ''Corp.''\<rparr>}"
    using ne by auto
  have RP: "{r \<in> (\<Union>c\<in>set [ustr ''Acme Corp.'', ustr ''Corp.'']. set (?M c)).
        entity r = ustr ''PER''} = {}"
    using ne by auto
  have keep: "strip_ws (replace_marker (ustr ''Acme'')) \<noteq> []"
    "strip_ws (replace_marker (ustr ''##Corp'')) \<noteq> []"
    "strip_ws (replace_marker (ustr ''Corp.'')) \<noteq> []"
    by (simp_all add: strip_ws_def ustr_def is_space_def)
  have norm: "normalize_value (ustr ''Acme'') = ustr ''Acme''"
    "normalize_value (ustr ''##Corp'') = ustr ''Corp''"
    "normalize_value (ustr ''Corp.'') = ustr ''Corp''"
    by (simp_all add: normalize_value_def strip_chars_def junk_chars_def ustr_def)
  have K: "{w \<in> {ustr ''Acme'', ustr ''##Corp'', ustr ''Corp.''}.
        strip_ws (replace_marker w) \<noteq> []}
      = {ustr ''Acme'', ustr ''##Corp'', ustr ''Corp.''}"
    using keep by auto
  have "idxM (ustr ''ORG'') = Some (normalize_value ` {ustr ''Acme'', ustr ''##Corp'', ustr ''Corp.''})"
    using look[rule_format, of "ustr ''ORG''"]
    by (simp only: RO image_insert image_empty ner_result.simps K insert_not_empty if_False)
  then have o: "idxM (ustr ''ORG'') = Some {ustr ''Acme'', ustr ''Corp''}"
    by (simp only: image_insert image_empty norm insert_absorb2)
  have p: "idxM (ustr ''PER'') = None"
    using look[rule_format, of "ustr ''PER''"] by (simp only: RP simp_thms if_True)
  from ch A a M o p show ?thesis
    by blast
qed

text \<open>
  C8, as the specification states it: values that are equal after normalization, the
  removal of markers and of punctuation and whitespace at both ends, are stored once.
  The code strips four characters only. \<open>Acme Corp;\<close> from one chunk and \<open>Acme Corp\<close>
  from the next, which overlaps it, are equal after the normalization of the
  specification, and the set for \<open>ORG\<close> holds both.
\<close>

theorem extract_deduplicates_counterexample:
  "spec_normalize (ustr ''Acme Corp;'') = spec_normalize (ustr ''Acme Corp'')
   \<and> ustr ''Acme Corp;'' \<noteq> ustr ''Acme Corp''
   \<and> extract_legal_entities (semicolon_ner :: pystr \<Rightarrow> unit + ner_result list)
        (ustr ''Acme Corp;'') 201
      = Some (Inr [ustr ''ORG'' \<mapsto> {ustr ''Acme Corp;'', ustr ''Acme Corp''}])"
proof -
  have sn: "spec_normalize (ustr ''Acme Corp;'') = spec_normalize (ustr ''Acme Corp'')"
    by (simp add: spec_normalize_def ustr_def is_space_def is_punct_def)
  have ne: "ustr ''Acme Corp;'' \<noteq> ustr ''Acme Corp''" "ustr ''Corp;'' \<noteq> ustr ''Acme Corp;''"
    by (simp_all add: ustr_def)
  have ch: "chunk_text (ustr ''Acme Corp;'') 201 200 = Some [ustr ''Acme Corp;'', ustr ''Corp;'']"
    by (simp add: chunk_text_def chunk_loop.simps py_slice_def eval_str)
  have m: "replace_marker (ustr ''Acme Corp;'') = ustr ''Acme Corp;''"
    "replace_marker (ustr ''Acme Corp'') = ustr ''Acme Corp''"
    by (simp_all add: ustr_def)
  have col: "collect_entities (semicolon_ner :: pystr \<Rightarrow> unit + ner_result list)
        Map.empty [ustr ''Acme Corp;'', ustr ''Corp;'']
      = Inr [ustr ''ORG'' \<mapsto> {ustr ''Acme Corp;'', ustr ''Acme Corp''}]"
    using ne by (auto simp: semicolon_ner_def Let_def m)
  have keep: "strip_ws (ustr ''Acme Corp;'') \<noteq> []" "strip_ws (ustr ''Acme Corp'') \<noteq> []"
    by (simp_all add: strip_ws_def ustr_def is_space_def)
  have junk: "strip_chars junk_chars (ustr ''Acme Corp;'') = ustr ''Acme Corp;''"
    "strip_chars junk_chars (ustr ''Acme Corp'') = ustr ''Acme Corp''"
    by (simp_all add: strip_chars_def junk_chars_def ustr_def)
  have cl: "clean_up [ustr ''ORG'' \<mapsto> {ustr ''Acme Corp;'', ustr ''Acme Corp''}]
      = [ustr ''ORG'' \<mapsto> {ustr ''Acme Corp;'', ustr ''Acme Corp''}]"
  proof -
    have F: "{v \<in> {ustr ''Acme Corp;'', ustr ''Acme Corp''}. strip_ws v \<noteq> []}
        = {ustr ''Acme Corp;'', ustr ''Acme Corp''}"
      using keep by auto
    have I: "strip_chars junk_chars ` {ustr ''Acme Corp;'', ustr ''Acme Corp''}
        = {ustr ''Acme Corp;'', ustr ''Acme Corp''}"
      by (simp only: image_insert image_empty junk)
    show ?thesis
    proof (rule ext)
      fix k
      show "clean_up [ustr ''ORG'' \<mapsto> {ustr ''Acme Corp;'', ustr ''Acme Corp''}] k
          = [ustr ''ORG'' \<mapsto> {ustr ''Acme Corp;'', ustr ''Acme Corp''}] k"
      proof (cases "k = ustr ''ORG''")
        case True
        show ?thesis
          unfolding True clean_up_def by (simp only: fun_upd_same option.map F I)
      next
        case False
        then show ?thesis
          by (simp add: clean_up_def)
      qed
    qed
  qed
  have "extract_legal_entities (semicolon_ner :: pystr \<Rightarrow> unit + ner_result list)
        (ustr ''Acme Corp;'') 201
      = Some (Inr [ustr ''ORG'' \<mapsto> {ustr ''Acme Corp;'', ustr ''Acme Corp''}])"
    by (simp only: extract_legal_entities_def ch option.case col sum.case cl)
  with sn ne(1) show ?thesis
    by (intro conjI)
qed

text \<open>
  C5 states that no value of the returned index is empty: raw values that are empty
  after the removal of markers, punctuation and whitespace are discarded. The filter of
  the clean-up loop tests \<^verbatim>\<open>v.strip()\<close>, the value without whitespace, while the
  value stored is \<^verbatim>\<open>v.strip(" ,.'")\<close>: for the text \<open>Clause 5.\<close> and an entity model
  that tags the full stop, the set for \<open>ORG\<close> holds the empty string.
\<close>

theorem extract_keeps_empty_value:
  "extract_legal_entities (punctuation_ner :: pystr \<Rightarrow> unit + ner_result list)
     (ustr ''Clause 5.'') 500
   = Some (Inr [ustr ''ORG'' \<mapsto> {[]}])"
proof -
  have ch: "chunk_text (ustr ''Clause 5.'') 500 200 = Some [ustr ''Clause 5.'']"
    by (simp add: chunk_text_def chunk_loop.simps py_slice_def eval_str)
  have col: "collect_entities (punctuation_ner :: pystr \<Rightarrow> unit + ner_result list)
        Map.empty [ustr ''Clause 5.'']
      = Inr [ustr ''ORG'' \<mapsto> {ustr ''.''}]"
    by (simp add: punctuation_ner_def Let_def ustr_def)
  have keep: "strip_ws (ustr ''.'') \<noteq> []"
    by (simp add: strip_ws_def ustr_def is_space_def)
  have junk: "strip_chars junk_chars (ustr ''.'') = []"
    by (simp add: strip_chars_def junk_chars_def ustr_def)
  have cl: "clean_up [ustr ''ORG'' \<mapsto> {ustr ''.''}] = [ustr ''ORG'' \<mapsto> {[]}]"
    using keep junk by (auto simp: clean_up_def fun_eq_iff)
  show ?thesis
    by (simp only: extract_legal_entities_def ch option.case col sum.case cl)
qed

end
